theory Spec2Isabelle
  imports Main "HOL-Library.Word" "HOL-Library.Multiset"
begin

text \<open>
  A model of the Go package \<^verbatim>\<open>deck\<close> (card.go): cards, the two ranking keys, the
  comparator factories, and the transformations \<open>DefaultSort\<close>, \<open>Sort\<close>, \<open>Shuffle\<close>,
  \<open>Jokers\<close>, \<open>Filter\<close> and \<open>Deck\<close> that \<open>New\<close> applies to the base deck. The
  definitions follow the source function by function; the theorems after them settle the
  claims C1 to C10 made about the package.
\<close>

section \<open>Entity model (card.go, lines 12-91)\<close>

text \<open>
  \<^verbatim>\<open>type Suit uint8\<close> and \<^verbatim>\<open>type Rank uint8\<close> are named 8-bit unsigned integers, not
  closed enumerations: the constants below are the values \<^verbatim>\<open>iota\<close> assigns, and every
  other byte is a value of the type too (\<^verbatim>\<open>Jokers\<close> builds such ranks).
\<close>

type_synonym Suit = "8 word"

definition Spade :: Suit where "Spade = 0"
definition Diamond :: Suit where "Diamond = 1"
definition Club :: Suit where "Club = 2"
definition Heart :: Suit where "Heart = 3"
definition Joker :: Suit where "Joker = 4"

definition suits :: "Suit list" where
  "suits = [Spade, Diamond, Club, Heart]"

type_synonym Rank = "8 word"

definition Ace :: Rank where "Ace = 1"
definition Two :: Rank where "Two = 2"
definition Three :: Rank where "Three = 3"
definition Four :: Rank where "Four = 4"
definition Five :: Rank where "Five = 5"
definition Six :: Rank where "Six = 6"
definition Seven :: Rank where "Seven = 7"
definition Eight :: Rank where "Eight = 8"
definition Nine :: Rank where "Nine = 9"
definition Ten :: Rank where "Ten = 10"
definition Jack :: Rank where "Jack = 11"
definition Queen :: Rank where "Queen = 12"
definition King :: Rank where "King = 13"

definition minRank :: Rank where "minRank = Ace"
definition maxRank :: Rank where "maxRank = King"

record Card =
  Suit :: Suit
  Rank :: Rank

section \<open>Deck builder (card.go, lines 101-116)\<close>

text \<open>
  A transformation is a Go \<^verbatim>\<open>func([]Card) []Card\<close>. A call of such a function either
  returns a slice or panics at run time (an index out of range); the panic is the value
  \<open>None\<close>. Slices are modelled by their contents, a list of cards: every function below
  is characterised by the sequence it returns.
\<close>

type_synonym transformation = "Card list \<Rightarrow> Card list option"

text \<open>
  The inner loop \<^verbatim>\<open>for rank := minRank; rank <= maxRank; rank++\<close> runs on a \<^verbatim>\<open>uint8\<close>
  counter, so \<open>rank + 1\<close> is the wrapping addition of the word type.
\<close>

function rank_loop :: "Suit \<Rightarrow> Rank \<Rightarrow> Card list \<Rightarrow> Card list" where
  "rank_loop suit rank cards =
     (if rank \<le> maxRank
      then rank_loop suit (rank + 1) (cards @ [\<lparr>Suit = suit, Rank = rank\<rparr>])
      else cards)"
  by pat_completeness auto
termination
proof (relation "measure (\<lambda>(suit, rank, cards). 14 - unat rank)")
  show "wf (measure (\<lambda>(suit, rank, cards). 14 - unat rank))"
    by simp
next
  fix suit :: Suit and rank :: Rank and cards :: "Card list"
  assume "rank \<le> maxRank"
  then have le: "unat rank \<le> 13"
    by (simp add: maxRank_def King_def word_le_nat_alt)
  then have "unat (rank + 1) = unat rank + 1"
    by (simp add: unat_word_ariths)
  with le show "((suit, rank + 1, cards @ [\<lparr>Suit = suit, Rank = rank\<rparr>]), (suit, rank, cards))
      \<in> measure (\<lambda>(suit, rank, cards). 14 - unat rank)"
    by simp
qed

declare rank_loop.simps [simp del]

text \<open>The outer loop \<^verbatim>\<open>for _, suit := range suits\<close>.\<close>

fun suit_loop :: "Suit list \<Rightarrow> Card list \<Rightarrow> Card list" where
  "suit_loop [] cards = cards"
| "suit_loop (suit # rest) cards = suit_loop rest (rank_loop suit minRank cards)"

text \<open>The loop \<^verbatim>\<open>for _, opt := range opts { cards = opt(cards) }\<close>; a panic of an option ends it.\<close>

fun apply_opts :: "transformation list \<Rightarrow> Card list \<Rightarrow> Card list option" where
  "apply_opts [] cards = Some cards"
| "apply_opts (opt # opts) cards =
     (case opt cards of None \<Rightarrow> None | Some cards' \<Rightarrow> apply_opts opts cards')"

definition New :: "transformation list \<Rightarrow> Card list option" where
  "New opts = apply_opts opts (suit_loop suits [])"

section \<open>Ranking functions (card.go, lines 147-153)\<close>

text \<open>
  \<^verbatim>\<open>int(c.Suit)\<close> reads the byte as a non-negative Go \<^verbatim>\<open>int\<close>; the results stay far
  below the range of \<^verbatim>\<open>int\<close>, so they are computed in \<open>int\<close>. \<^verbatim>\<open>len(suits)\<close> is 4.
\<close>

definition absRank :: "Card \<Rightarrow> int" where
  "absRank c = uint (Suit c) * uint maxRank + uint (Rank c)"

definition rankThenSuit :: "Card \<Rightarrow> int" where
  "rankThenSuit c = ((uint (Rank c) - 1) * int (length suits)) + uint (Suit c)"

section \<open>Comparator factories and sorting (card.go, lines 118-145)\<close>

text \<open>
  A factory receives the slice and returns a closure over it. \<^verbatim>\<open>sort.Slice\<close> sorts that
  very slice in place, so each call \<^verbatim>\<open>less(i, j)\<close> reads the contents the slice has at
  that moment: the closure is a function of the current contents and two positions.
  \<^verbatim>\<open>cards[i]\<close> panics when the position is not below the length.
\<close>

type_synonym less_closure = "Card list \<Rightarrow> nat \<Rightarrow> nat \<Rightarrow> bool option"

definition ByRankThenBySuit :: less_closure where
  "ByRankThenBySuit cards i j =
     (if i < length cards \<and> j < length cards
      then Some (rankThenSuit (cards ! i) < rankThenSuit (cards ! j))
      else None)"

definition BySuitThenByRank :: less_closure where
  "BySuitThenByRank cards i j =
     (if i < length cards \<and> j < length cards
      then Some (absRank (cards ! i) < absRank (cards ! j))
      else None)"

text \<open>
  \<^verbatim>\<open>sort.Slice\<close> belongs to Go's standard library, not to this package. It is a
  parameter \<open>sort_Slice\<close> of the two functions that call it: given the slice and the
  closure it returns the sorted contents, or panics.
\<close>

type_synonym slice_sorter = "Card list \<Rightarrow> less_closure \<Rightarrow> Card list option"

definition DefaultSort :: "slice_sorter \<Rightarrow> transformation" where
  "DefaultSort sort_Slice cards = sort_Slice cards BySuitThenByRank"

definition Sort :: "slice_sorter \<Rightarrow> less_closure \<Rightarrow> transformation" where
  "Sort sort_Slice less_factory = (\<lambda>cards. sort_Slice cards less_factory)"

section \<open>Shuffle (card.go, lines 155-164)\<close>

text \<open>
  The closure handed to \<^verbatim>\<open>r.Shuffle\<close>: \<^verbatim>\<open>cards[i], cards[j] = cards[j], cards[i]\<close>. Both
  right-hand sides are read before either position is written.
\<close>

definition swap_cards :: "Card list \<Rightarrow> nat \<Rightarrow> nat \<Rightarrow> Card list option" where
  "swap_cards cards i j =
     (if i < length cards \<and> j < length cards
      then Some (cards[i := cards ! j, j := cards ! i])
      else None)"

text \<open>
  \<^verbatim>\<open>r.Shuffle(len(cards), swap)\<close> is the standard library's; all it does to the slice is
  call \<^verbatim>\<open>swap\<close>. One outcome of the time-seeded source is therefore the sequence of
  position pairs the closure is called with, and \<open>Shuffle\<close> takes it as an argument.
\<close>

fun run_swaps :: "(nat \<times> nat) list \<Rightarrow> Card list \<Rightarrow> Card list option" where
  "run_swaps [] cards = Some cards"
| "run_swaps ((i, j) # rest) cards =
     (case swap_cards cards i j of None \<Rightarrow> None | Some cards' \<Rightarrow> run_swaps rest cards')"

definition Shuffle :: "(nat \<times> nat) list \<Rightarrow> transformation" where
  "Shuffle outcome cards = run_swaps outcome cards"

section \<open>Jokers, Filter, Deck (card.go, lines 166-200)\<close>

text \<open>
  \<^verbatim>\<open>for i := 0; i < n; i++\<close> counts in Go's \<^verbatim>\<open>int\<close>; since \<open>i < n\<close> the increment never
  overflows. \<^verbatim>\<open>Rank(i)\<close> converts the counter to \<^verbatim>\<open>uint8\<close>, keeping its low eight bits.
\<close>

function jokers_loop :: "int \<Rightarrow> int \<Rightarrow> Card list \<Rightarrow> Card list" where
  "jokers_loop n i cards =
     (if i < n
      then jokers_loop n (i + 1) (cards @ [\<lparr>Suit = Joker, Rank = word_of_int i\<rparr>])
      else cards)"
  by pat_completeness auto
termination
  by (relation "measure (\<lambda>(n, i, cards). nat (n - i))") auto

declare jokers_loop.simps [simp del]

definition Jokers :: "int \<Rightarrow> transformation" where
  "Jokers n = (\<lambda>cards. Some (jokers_loop n 0 cards))"

fun filter_loop :: "(Card \<Rightarrow> bool) \<Rightarrow> Card list \<Rightarrow> Card list \<Rightarrow> Card list" where
  "filter_loop f [] ret = ret"
| "filter_loop f (crd # cards) ret =
     (if \<not> f crd then filter_loop f cards (ret @ [crd]) else filter_loop f cards ret)"

definition Filter :: "(Card \<Rightarrow> bool) \<Rightarrow> transformation" where
  "Filter f = (\<lambda>cards. Some (filter_loop f cards []))"

function deck_loop :: "int \<Rightarrow> int \<Rightarrow> Card list \<Rightarrow> Card list \<Rightarrow> Card list" where
  "deck_loop n i cards ret =
     (if i < n then deck_loop n (i + 1) cards (ret @ cards) else ret)"
  by pat_completeness auto
termination
  by (relation "measure (\<lambda>(n, i, cards, ret). nat (n - i))") auto

declare deck_loop.simps [simp del]

definition Deck :: "int \<Rightarrow> transformation" where
  "Deck n = (\<lambda>cards. Some (deck_loop n 0 cards []))"

section \<open>The standard library's sorting routine\<close>

text \<open>
  What the library documents of \<^verbatim>\<open>sort.Slice\<close>: it sorts the slice by the given
  \<^verbatim>\<open>less\<close>, it calls \<^verbatim>\<open>less\<close> with positions of the slice only, and it is not
  guaranteed to be stable (equal elements may change their relative order). Both closures
  of this package compare an integer key of the two cards, so the contract is stated for
  closures of that kind: the result is a rearrangement of the input, ascending in the key.
\<close>

definition keyed_less :: "(Card \<Rightarrow> int) \<Rightarrow> less_closure \<Rightarrow> bool" where
  "keyed_less key less_fn \<longleftrightarrow>
     (\<forall>cards i j. i < length cards \<longrightarrow> j < length cards \<longrightarrow>
        less_fn cards i j = Some (key (cards ! i) < key (cards ! j)))"

definition sort_Slice_contract :: "slice_sorter \<Rightarrow> bool" where
  "sort_Slice_contract sort_Slice \<longleftrightarrow>
     (\<forall>key less_fn cards. keyed_less key less_fn \<longrightarrow>
        (\<exists>result. sort_Slice cards less_fn = Some result \<and>
           mset result = mset cards \<and> sorted (map key result)))"


text \<open>
  The library's insertion sort, the routine \<^verbatim>\<open>sort.Slice\<close> runs on short slices:
  \<^verbatim>\<open>for i := a + 1; i < b; i++ { for j := i; j > a && less(j, j-1); j-- { swap(j, j-1) } }\<close>.
  It shows that a routine with both properties exists.
\<close>

type_synonym move_test = "Card list \<Rightarrow> nat \<Rightarrow> bool option"

definition less_than_previous :: "less_closure \<Rightarrow> move_test" where
  "less_than_previous less_fn cards j = less_fn cards j (j - 1)"

fun insert_at :: "move_test \<Rightarrow> nat \<Rightarrow> Card list \<Rightarrow> Card list option" where
  "insert_at test 0 cards = Some cards"
| "insert_at test (Suc j) cards =
     (case test cards (Suc j) of
        None \<Rightarrow> None
      | Some False \<Rightarrow> Some cards
      | Some True \<Rightarrow>
          (case swap_cards cards (Suc j) j of
             None \<Rightarrow> None
           | Some cards' \<Rightarrow> insert_at test j cards'))"

fun insert_each :: "move_test \<Rightarrow> nat list \<Rightarrow> Card list \<Rightarrow> Card list option" where
  "insert_each test [] cards = Some cards"
| "insert_each test (i # rest) cards =
     (case insert_at test i cards of
        None \<Rightarrow> None
      | Some cards' \<Rightarrow> insert_each test rest cards')"

definition insertionSort :: slice_sorter where
  "insertionSort cards less_fn =
     insert_each (less_than_previous less_fn) [1..<length cards] cards"

text \<open>A test of the inner loop is sound for a key when its answer agrees with the key.\<close>

definition sound_test :: "(Card \<Rightarrow> int) \<Rightarrow> move_test \<Rightarrow> bool" where
  "sound_test key test \<longleftrightarrow>
     (\<forall>cards j. 0 < j \<and> j < length cards \<longrightarrow>
        (\<exists>b. test cards j = Some b \<and>
           (if b then key (cards ! j) \<le> key (cards ! (j - 1))
            else key (cards ! (j - 1)) \<le> key (cards ! j))))"

section \<open>The specification's vocabulary\<close>

text \<open>
  The sequences and the class of cards the specification speaks of, written from its
  words: the thirteen ranks in ascending order, the suit-major sequence (for each suit in
  the declared order, each rank ascending), the rank-major sequence (for each rank, each
  suit), and the non-joker cards.
\<close>

definition ranks :: "Rank list" where
  "ranks = [Ace, Two, Three, Four, Five, Six, Seven, Eight, Nine, Ten, Jack, Queen, King]"

definition canonical_deck :: "Card list" where
  "canonical_deck =
     concat (map (\<lambda>s. map (\<lambda>r. \<lparr>Suit = s, Rank = r\<rparr>) ranks) [Spade, Diamond, Club, Heart])"

definition rank_major_deck :: "Card list" where
  "rank_major_deck =
     concat (map (\<lambda>r. map (\<lambda>s. \<lparr>Suit = s, Rank = r\<rparr>) [Spade, Diamond, Club, Heart]) ranks)"

definition non_joker_card :: "Card \<Rightarrow> bool" where
  "non_joker_card c \<longleftrightarrow>
     Suit c \<in> {Spade, Diamond, Club, Heart} \<and> Ace \<le> Rank c \<and> Rank c \<le> King"

section \<open>Evaluation and loop lemmas\<close>

lemmas suit_defs = Spade_def Diamond_def Club_def Heart_def Joker_def

lemmas rank_defs = Ace_def Two_def Three_def Four_def Five_def Six_def Seven_def Eight_def
  Nine_def Ten_def Jack_def Queen_def King_def minRank_def maxRank_def

lemma rank_loop_run:
  "rank_loop s minRank cards = cards @ map (\<lambda>r. \<lparr>Suit = s, Rank = r\<rparr>) ranks"
  by (simp add: rank_loop.simps [of _ "numeral _"] rank_loop.simps [of _ 1] rank_defs ranks_def)

lemma suit_loop_canonical: "suit_loop suits [] = canonical_deck"
  by (simp add: suits_def canonical_deck_def rank_loop_run)

lemma New_Nil: "New [] = Some canonical_deck"
  by (simp add: New_def suit_loop_canonical)

lemma apply_opts_snoc:
  "apply_opts (opts @ [opt]) cards = Option.bind (apply_opts opts cards) opt"
  by (induction opts arbitrary: cards) (auto split: option.splits)

lemma New_single: "New [opt] = opt canonical_deck"
  by (simp add: New_def suit_loop_canonical split: option.splits)

lemma length_canonical_deck: "length canonical_deck = 52"
  by (simp add: canonical_deck_def ranks_def)

section \<open>The base deck and the order of the transformations\<close>

text \<open>
  Claim C1. \<open>New\<close> without transformations returns the canonical sequence of the nested
  iteration, suit by suit in the order Spade, Diamond, Club, Heart and Ace to King within
  a suit: 52 cards, no card twice, exactly the cards of a real suit and a rank Ace..King,
  none of suit Joker, 13 of each suit and 4 of each rank. With transformations, \<open>New\<close>
  applies them in the order given, each to the result of the one before: appending one
  more transformation applies it to what \<open>New\<close> returns without it.
\<close>

theorem New_canonical_deck:
  "New [] = Some canonical_deck \<and>
   length canonical_deck = 52 \<and>
   distinct canonical_deck \<and>
   set canonical_deck = (\<lambda>(s, r). \<lparr>Suit = s, Rank = r\<rparr>) ` (set suits \<times> set ranks) \<and>
   Joker \<notin> Suit ` set canonical_deck \<and>
   map (\<lambda>s. length (filter (\<lambda>c. Suit c = s) canonical_deck)) suits = [13, 13, 13, 13] \<and>
   map (\<lambda>r. length (filter (\<lambda>c. Rank c = r) canonical_deck)) ranks =
     [4, 4, 4, 4, 4, 4, 4, 4, 4, 4, 4, 4, 4] \<and>
   New (opts @ [opt]) = Option.bind (New opts) opt"
proof (intro conjI)
  show "New [] = Some canonical_deck"
    by (rule New_Nil)
  show "length canonical_deck = 52"
    by (rule length_canonical_deck)
  show "distinct canonical_deck"
    by (simp add: canonical_deck_def ranks_def suit_defs rank_defs)
  show "set canonical_deck = (\<lambda>(s, r). \<lparr>Suit = s, Rank = r\<rparr>) ` (set suits \<times> set ranks)"
    by (auto simp add: canonical_deck_def suits_def ranks_def)
  show "Joker \<notin> Suit ` set canonical_deck"
    by (simp add: canonical_deck_def ranks_def suit_defs rank_defs)
  show "map (\<lambda>s. length (filter (\<lambda>c. Suit c = s) canonical_deck)) suits = [13, 13, 13, 13]"
    by (simp add: canonical_deck_def ranks_def suits_def suit_defs rank_defs)
  show "map (\<lambda>r. length (filter (\<lambda>c. Rank c = r) canonical_deck)) ranks =
      [4, 4, 4, 4, 4, 4, 4, 4, 4, 4, 4, 4, 4]"
    by (simp add: canonical_deck_def ranks_def suits_def suit_defs rank_defs)
  show "New (opts @ [opt]) = Option.bind (New opts) opt"
    by (simp add: New_def apply_opts_snoc)
qed

section \<open>The two ranking keys\<close>

lemma non_joker_bounds:
  assumes "non_joker_card c"
  shows "0 \<le> uint (Suit c) \<and> uint (Suit c) \<le> 3 \<and> 1 \<le> uint (Rank c) \<and> uint (Rank c) \<le> 13"
proof -
  from assms have "Suit c = 0 \<or> Suit c = 1 \<or> Suit c = 2 \<or> Suit c = 3"
    by (auto simp add: non_joker_card_def suit_defs)
  then have "uint (Suit c) \<le> 3" by auto
  moreover from assms have "1 \<le> uint (Rank c)" "uint (Rank c) \<le> 13"
    by (simp_all add: non_joker_card_def rank_defs word_le_def)
  ultimately show ?thesis by simp
qed

lemma suit_major_arith:
  fixes s1 r1 s2 r2 :: int
  assumes "1 \<le> r1" "r1 \<le> 13" "1 \<le> r2" "r2 \<le> 13"
  shows "(s1 * 13 + r1 < s2 * 13 + r2) = (s1 < s2 \<or> (s1 = s2 \<and> r1 < r2))"
    and "(s1 * 13 + r1 = s2 * 13 + r2) = (s1 = s2 \<and> r1 = r2)"
  using assms by (cases s1 s2 rule: linorder_cases; simp; linarith)+

lemma rank_major_arith:
  fixes s1 r1 s2 r2 :: int
  assumes "0 \<le> s1" "s1 \<le> 3" "0 \<le> s2" "s2 \<le> 3"
  shows "((r1 - 1) * 4 + s1 < (r2 - 1) * 4 + s2) = (r1 < r2 \<or> (r1 = r2 \<and> s1 < s2))"
    and "((r1 - 1) * 4 + s1 = (r2 - 1) * 4 + s2) = (r1 = r2 \<and> s1 = s2)"
  using assms by (cases r1 r2 rule: linorder_cases; simp; linarith)+

lemma card_eq_iff: "(c1 = c2) = (Suit c1 = Suit c2 \<and> Rank c1 = Rank c2)" for c1 c2 :: Card
  by auto

lemma absRank_unfold: "absRank c = uint (Suit c) * 13 + uint (Rank c)"
  by (simp add: absRank_def rank_defs)

lemma rankThenSuit_unfold: "rankThenSuit c = (uint (Rank c) - 1) * 4 + uint (Suit c)"
  by (simp add: rankThenSuit_def suits_def)

text \<open>
  Claim C2. For two non-joker cards (a suit among Spade, Diamond, Club, Heart and a rank
  Ace..King) the key \<open>absRank\<close>, suit ordinal times \<open>maxRank\<close> plus rank ordinal, orders
  by suit first and by rank within a suit: the key of the first card is smaller exactly
  when its suit is smaller, or the suits are equal and its rank is smaller. Equal keys
  mean equal cards, so the order is total; \<open>BySuitThenByRank\<close> answers by this key.
\<close>

theorem absRank_suit_then_rank:
  assumes "non_joker_card c1" and "non_joker_card c2"
  shows "(absRank c1 < absRank c2) =
      (Suit c1 < Suit c2 \<or> (Suit c1 = Suit c2 \<and> Rank c1 < Rank c2))
    \<and> (absRank c1 = absRank c2) = (c1 = c2)
    \<and> BySuitThenByRank [c1, c2] 0 1 =
        Some (Suit c1 < Suit c2 \<or> (Suit c1 = Suit c2 \<and> Rank c1 < Rank c2))"
proof -
  from non_joker_bounds [OF assms(1)] non_joker_bounds [OF assms(2)]
  have b: "1 \<le> uint (Rank c1)" "uint (Rank c1) \<le> 13" "1 \<le> uint (Rank c2)" "uint (Rank c2) \<le> 13"
    by simp_all
  have lt: "(absRank c1 < absRank c2) =
      (Suit c1 < Suit c2 \<or> (Suit c1 = Suit c2 \<and> Rank c1 < Rank c2))"
    unfolding absRank_unfold word_less_def word_uint_eq_iff using b by (intro suit_major_arith)
  have eq: "(absRank c1 = absRank c2) = (c1 = c2)"
    unfolding absRank_unfold card_eq_iff word_uint_eq_iff using b by (intro suit_major_arith)
  from lt eq show ?thesis by (simp add: BySuitThenByRank_def)
qed

theorem absRank_suit_then_rank_witness:
  "non_joker_card \<lparr>Suit = Spade, Rank = King\<rparr> \<and>
   non_joker_card \<lparr>Suit = Diamond, Rank = Ace\<rparr> \<and>
   absRank \<lparr>Suit = Spade, Rank = King\<rparr> < absRank \<lparr>Suit = Diamond, Rank = Ace\<rparr> \<and>
   BySuitThenByRank [\<lparr>Suit = Spade, Rank = King\<rparr>, \<lparr>Suit = Diamond, Rank = Ace\<rparr>] 0 1 = Some True"
  using absRank_suit_then_rank [of "\<lparr>Suit = Spade, Rank = King\<rparr>" "\<lparr>Suit = Diamond, Rank = Ace\<rparr>"]
  by (simp add: non_joker_card_def suit_defs rank_defs)

section \<open>Jokers, Filter and Deck\<close>

lemma jokers_loop_run:
  "jokers_loop n i cards = cards @ map (\<lambda>k. \<lparr>Suit = Joker, Rank = word_of_int k\<rparr>) [i..n - 1]"
proof (induction n i cards rule: jokers_loop.induct)
  case (1 n i cards)
  show ?case
  proof (cases "i < n")
    case True
    then have "[i..n - 1] = i # [i + 1..n - 1]"
      by (simp add: upto_rec1)
    with True "1.IH" show ?thesis
      by (simp add: jokers_loop.simps [of n i])
  next
    case False
    then show ?thesis
      by (simp add: jokers_loop.simps [of n i])
  qed
qed

lemma Jokers_run:
  "Jokers n cards = Some (cards @ map (\<lambda>k. \<lparr>Suit = Joker, Rank = word_of_int k\<rparr>) [0..n - 1])"
  by (simp add: Jokers_def jokers_loop_run)

lemma filter_loop_run: "filter_loop f cards ret = ret @ filter (\<lambda>c. \<not> f c) cards"
  by (induction cards arbitrary: ret) simp_all

lemma Filter_run: "Filter f cards = Some (filter (\<lambda>c. \<not> f c) cards)"
  by (simp add: Filter_def filter_loop_run)

lemma deck_loop_run:
  "deck_loop n i cards ret = ret @ concat (replicate (nat (n - i)) cards)"
proof (induction n i cards ret rule: deck_loop.induct)
  case (1 n i cards ret)
  show ?case
  proof (cases "i < n")
    case True
    then have "nat (n - i) = Suc (nat (n - (i + 1)))" by simp
    with True "1.IH" show ?thesis
      by (simp add: deck_loop.simps [of n i])
  next
    case False
    then show ?thesis
      by (simp add: deck_loop.simps [of n i])
  qed
qed

lemma Deck_run: "Deck n cards = Some (concat (replicate (nat n) cards))"
  by (simp add: Deck_def deck_loop_run)

lemma length_concat_replicate: "length (concat (replicate k xs)) = k * length xs"
  by (induction k) simp_all

lemma count_concat_replicate: "count (mset (concat (replicate k xs))) c = k * count (mset xs) c"
  by (induction k) simp_all

lemma uint_rank_of_int: "uint (word_of_int k :: Rank) = k mod 256"
  by (simp add: uint_word_of_int)

lemma ranks_small:
  assumes "n \<le> 256"
  shows "map (\<lambda>k. uint (word_of_int k :: Rank)) [0..n - 1] = [0..n - 1]"
proof (rule map_idI)
  fix k :: int
  assume "k \<in> set [0..n - 1]"
  with assms show "uint (word_of_int k :: Rank) = k"
    by (simp add: uint_rank_of_int)
qed

lemma upto_0_2: "[0..2] = [0, 1, (2::int)]"
  by (simp add: upto_rec1)

text \<open>
  Claim C6, as amended. For every \<open>n \<ge> 0\<close> and every input, \<open>Jokers n\<close> returns the input
  followed by exactly \<open>n\<close> cards of suit Joker; the card appended in round \<open>k\<close> carries the
  rank \<open>k mod 256\<close>, because \<^verbatim>\<open>Rank(i)\<close> keeps the low eight bits of the counter. For
  \<open>n \<le> 256\<close> the ranks are \<open>0, \<dots>, n - 1\<close>, pairwise distinct. \<open>Jokers 0\<close> returns its
  input, and \<open>Jokers 3\<close> after \<open>New\<close> gives the 52 cards followed by the jokers of ranks
  0, 1 and 2.
\<close>

theorem Jokers_appends:
  assumes "0 \<le> n"
  shows "(\<exists>jokers. Jokers n cards = Some (cards @ jokers) \<and>
      int (length jokers) = n \<and>
      map Suit jokers = replicate (nat n) Joker \<and>
      map (\<lambda>c. uint (Rank c)) jokers = map (\<lambda>k. k mod 256) [0..n - 1] \<and>
      (n \<le> 256 \<longrightarrow>
         map (\<lambda>c. uint (Rank c)) jokers = [0..n - 1] \<and> distinct (map Rank jokers))) \<and>
    Jokers 0 cards = Some cards \<and>
    New [Jokers 3] = Some (canonical_deck @
      [\<lparr>Suit = Joker, Rank = 0\<rparr>, \<lparr>Suit = Joker, Rank = 1\<rparr>, \<lparr>Suit = Joker, Rank = 2\<rparr>])"
proof -
  let ?js = "map (\<lambda>k. \<lparr>Suit = Joker, Rank = word_of_int k\<rparr>) [0..n - 1]"
  have run: "Jokers n cards = Some (cards @ ?js)" by (rule Jokers_run)
  have len: "int (length ?js) = n" using assms by simp
  have suit: "map Suit ?js = replicate (nat n) Joker"
    using assms by (simp add: map_replicate_const comp_def)
  have rk: "map (\<lambda>c. uint (Rank c)) ?js = map (\<lambda>k. k mod 256) [0..n - 1]"
    by (simp add: comp_def uint_rank_of_int)
  have small: "n \<le> 256 \<longrightarrow> map (\<lambda>c. uint (Rank c)) ?js = [0..n - 1] \<and> distinct (map Rank ?js)"
  proof
    assume n: "n \<le> 256"
    have u: "map (\<lambda>c. uint (Rank c)) ?js = [0..n - 1]"
      using ranks_small [OF n] by (simp add: comp_def)
    have "distinct (map uint (map Rank ?js))"
      using u by (simp add: comp_def)
    then have "distinct (map Rank ?js)"
      by (simp only: distinct_map)
    with u show "map (\<lambda>c. uint (Rank c)) ?js = [0..n - 1] \<and> distinct (map Rank ?js)" by simp
  qed
  have zero: "Jokers 0 cards = Some cards" by (simp add: Jokers_run)
  have three: "New [Jokers 3] = Some (canonical_deck @
      [\<lparr>Suit = Joker, Rank = 0\<rparr>, \<lparr>Suit = Joker, Rank = 1\<rparr>, \<lparr>Suit = Joker, Rank = 2\<rparr>])"
    by (simp add: New_single Jokers_run upto_0_2)
  from run len suit rk small zero three show ?thesis by blast
qed

theorem Jokers_appends_witness:
  "(0::int) \<le> 3 \<and> (3::int) \<le> 256 \<and>
   (\<exists>jokers. Jokers 3 canonical_deck = Some (canonical_deck @ jokers) \<and> length jokers = 3 \<and>
      map Suit jokers = [Joker, Joker, Joker] \<and> map Rank jokers = [0, 1, 2])"
proof -
  from Jokers_appends [of 3 canonical_deck] obtain jokers where
    "Jokers 3 canonical_deck = Some (canonical_deck @ jokers)" by auto
  then show ?thesis
    by (auto simp add: Jokers_run upto_0_2)
qed

text \<open>
  The claim as stated (distinct ranks covering \<open>[0, n)\<close> for every \<open>n \<ge> 0\<close>) fails from
  \<open>n = 257\<close> on: the joker of round 256 has rank 0 again.
\<close>

theorem Jokers_257_ranks_repeat:
  "Jokers 257 [] \<noteq> None \<and> \<not> distinct (map Rank (the (Jokers 257 [])))"
proof -
  have "[0..257 - 1] = (0::int) # [1..255] @ [256]"
    by (simp add: upto_rec1 [of 0] upto_rec2 [of 1 256])
  then show ?thesis
    by (simp add: Jokers_run)
qed

text \<open>
  Claim C7. \<open>Filter f\<close> returns exactly the cards on which \<open>f\<close> is false, in the order
  they have in the input. A predicate that is always true leaves nothing, one that is
  always false leaves the input as it is, and excluding the Hearts from \<open>New\<close> leaves the
  39 other cards in their order, none of them a Heart.
\<close>

theorem Filter_keeps_unexcluded:
  "Filter f cards = Some (filter (\<lambda>c. \<not> f c) cards) \<and>
   Filter (\<lambda>c. True) cards = Some [] \<and>
   Filter (\<lambda>c. False) cards = Some cards \<and>
   New [Filter (\<lambda>c. Suit c = Heart)] = Some (filter (\<lambda>c. Suit c \<noteq> Heart) canonical_deck) \<and>
   length (filter (\<lambda>c. Suit c \<noteq> Heart) canonical_deck) = 39 \<and>
   Heart \<notin> Suit ` set (filter (\<lambda>c. Suit c \<noteq> Heart) canonical_deck)"
proof (intro conjI)
  show "Filter f cards = Some (filter (\<lambda>c. \<not> f c) cards)" by (rule Filter_run)
  show "Filter (\<lambda>c. True) cards = Some []" by (simp add: Filter_run)
  show "Filter (\<lambda>c. False) cards = Some cards" by (simp add: Filter_run)
  show "New [Filter (\<lambda>c. Suit c = Heart)] = Some (filter (\<lambda>c. Suit c \<noteq> Heart) canonical_deck)"
    by (simp add: New_single Filter_run)
  show "length (filter (\<lambda>c. Suit c \<noteq> Heart) canonical_deck) = 39"
    by (simp add: canonical_deck_def ranks_def suit_defs)
  show "Heart \<notin> Suit ` set (filter (\<lambda>c. Suit c \<noteq> Heart) canonical_deck)"
    by auto
qed

text \<open>
  Claim C8. For \<open>n \<ge> 0\<close>, \<open>Deck n\<close> returns \<open>n\<close> copies of the input one after the other:
  the length and the number of occurrences of every card are multiplied by \<open>n\<close>, and
  \<open>Deck 0\<close> returns the empty sequence. On 52 cards \<open>Deck 3\<close> returns 156, and a card that
  occurs once in the input occurs three times in the result.
\<close>

theorem Deck_concatenates:
  assumes "0 \<le> n"
  shows "(\<exists>out. Deck n cards = Some out \<and>
      out = concat (replicate (nat n) cards) \<and>
      int (length out) = n * int (length cards) \<and>
      (\<forall>c. int (count (mset out) c) = n * int (count (mset cards) c))) \<and>
    Deck 0 cards = Some [] \<and>
    (length cards = 52 \<longrightarrow>
      (\<exists>out. Deck 3 cards = Some out \<and> length out = 156 \<and>
         (\<forall>c. count (mset cards) c = 1 \<longrightarrow> count (mset out) c = 3)))"
  using assms by (simp add: Deck_run length_concat_replicate count_concat_replicate)

theorem Deck_concatenates_witness:
  "(0::int) \<le> 3 \<and> length canonical_deck = 52 \<and>
   count (mset canonical_deck) \<lparr>Suit = Heart, Rank = King\<rparr> = 1 \<and>
   (\<exists>out. Deck 3 canonical_deck = Some out \<and> length out = 156 \<and>
      count (mset out) \<lparr>Suit = Heart, Rank = King\<rparr> = 3)"
proof -
  have one: "count (mset canonical_deck) \<lparr>Suit = Heart, Rank = King\<rparr> = 1"
    by (simp add: canonical_deck_def ranks_def suit_defs rank_defs)
  from Deck_concatenates [of 3 canonical_deck] length_canonical_deck obtain out where
    run: "Deck 3 canonical_deck = Some out" and len: "length out = 156"
    and cnt: "\<forall>c. count (mset canonical_deck) c = 1 \<longrightarrow> count (mset out) c = 3"
    by auto
  from cnt one have "count (mset out) \<lparr>Suit = Heart, Rank = King\<rparr> = 3" by blast
  with run len one length_canonical_deck show ?thesis by simp
qed

text \<open>
  Claim C10. For \<open>n < 0\<close> neither loop runs: \<open>Jokers n\<close> returns its input and \<open>Deck n\<close>
  returns the empty sequence.
\<close>

theorem negative_counts_skip_loops:
  assumes "n < 0"
  shows "Jokers n cards = Some cards \<and> Deck n cards = Some []"
  using assms by (simp add: Jokers_run Deck_run)

theorem negative_counts_skip_loops_witness:
  "(-1::int) < 0 \<and> Jokers (-1) canonical_deck = Some canonical_deck \<and> Deck (-1) canonical_deck = Some []"
  using negative_counts_skip_loops [of "-1" canonical_deck] by simp

section \<open>The insertion sort meets the contract\<close>

lemma sound_less_than_previous:
  assumes "keyed_less key less_fn"
  shows "sound_test key (less_than_previous less_fn)"
  unfolding sound_test_def less_than_previous_def
proof (intro allI impI)
  fix cards :: "Card list" and j
  assume "0 < j \<and> j < length cards"
  then have "j < length cards" and "j - 1 < length cards" by arith+
  with assms have "less_fn cards j (j - 1) = Some (key (cards ! j) < key (cards ! (j - 1)))"
    unfolding keyed_less_def by blast
  then show "\<exists>b. less_fn cards j (j - 1) = Some b \<and>
      (if b then key (cards ! j) \<le> key (cards ! (j - 1))
       else key (cards ! (j - 1)) \<le> key (cards ! j))"
    by simp
qed

lemma swap_adjacent:
  "swap_cards (L @ y # x # rest) (Suc (length L)) (length L) = Some (L @ x # y # rest)"
  by (simp add: swap_cards_def list_update_append nth_append)

text \<open>
  The inner loop, on a slice split as \<open>L @ x # R @ T\<close> with the element \<open>x\<close> under way at
  position \<open>length L\<close>: \<open>L @ R\<close> is sorted and \<open>x\<close> is not above any element of \<open>R\<close>.
\<close>

lemma insert_at_sorts:
  assumes t: "sound_test key test"
  shows "sorted (map key (L @ R)) \<Longrightarrow> \<forall>y\<in>set R. key x \<le> key y \<Longrightarrow>
     \<exists>L' R'. insert_at test (length L) (L @ x # R @ T) = Some (L' @ x # R' @ T) \<and>
        L' @ R' = L @ R \<and> sorted (map key (L' @ x # R'))"
proof (induction L arbitrary: R rule: rev_induct)
  case Nil
  then have "insert_at test (length ([]::Card list)) ([] @ x # R @ T) = Some ([] @ x # R @ T)
      \<and> [] @ R = [] @ R \<and> sorted (map key ([] @ x # R))"
    by simp
  then show ?case by blast
next
  case (snoc y L)
  let ?cards = "(L @ [y]) @ x # R @ T"
  let ?j = "length L"
  have pos: "0 < Suc ?j \<and> Suc ?j < length ?cards" by simp
  have at_j: "?cards ! Suc ?j = x" "?cards ! (Suc ?j - 1) = y"
    by (simp_all add: nth_append)
  from t pos at_j obtain b where b: "test ?cards (Suc ?j) = Some b"
    and ord: "if b then key x \<le> key y else key y \<le> key x"
    unfolding sound_test_def by metis
  show ?case
  proof (cases b)
    case True
    with ord have xy: "key x \<le> key y" by simp
    have srt: "sorted (map key (L @ (y # R)))" using snoc.prems(1) by simp
    have below: "\<forall>z\<in>set (y # R). key x \<le> key z" using snoc.prems(2) xy by simp
    from snoc.IH [OF srt below] obtain L' R' where
      run: "insert_at test ?j (L @ x # (y # R) @ T) = Some (L' @ x # R' @ T)"
      and same: "L' @ R' = L @ y # R" and res: "sorted (map key (L' @ x # R'))"
      by blast
    have "insert_at test (length (L @ [y])) ?cards = Some (L' @ x # R' @ T)"
      using b True run swap_adjacent [of L y x "R @ T"] by simp
    with same res show ?thesis by auto
  next
    case False
    with ord have yx: "key y \<le> key x" by simp
    have run: "insert_at test (length (L @ [y])) ?cards = Some ((L @ [y]) @ x # R @ T)"
      using b False by simp
    have "sorted (map key ((L @ [y]) @ x # R))"
      using snoc.prems yx by (fastforce simp add: sorted_append)
    with run show ?thesis by blast
  qed
qed

lemma insert_each_sorts:
  assumes t: "sound_test key test"
  shows "sorted (map key (take i cards)) \<Longrightarrow>
     \<exists>result. insert_each test [i..<length cards] cards = Some result \<and>
        mset result = mset cards \<and> sorted (map key result)"
proof (induction "length cards - i" arbitrary: i cards)
  case 0
  then show ?case by simp
next
  case (Suc d)
  then have i: "i < length cards" by simp
  let ?L = "take i cards" and ?x = "cards ! i" and ?T = "drop (Suc i) cards"
  have split: "cards = ?L @ ?x # [] @ ?T"
    using i by (simp add: id_take_nth_drop)
  have len: "length ?L = i" using i by simp
  from insert_at_sorts [OF t, of ?L "[]" ?x ?T] Suc.prems obtain L' R' where
    run: "insert_at test (length ?L) (?L @ ?x # [] @ ?T) = Some (L' @ ?x # R' @ ?T)"
    and same: "L' @ R' = ?L @ []" and res: "sorted (map key (L' @ ?x # R'))"
    by auto
  let ?cards' = "L' @ ?x # R' @ ?T"
  from run split len have run': "insert_at test i cards = Some ?cards'" by simp
  from same have len': "length L' + length R' = i" using len by (metis append_Nil2 length_append)
  have length': "length ?cards' = length cards" using len' i by simp
  have "mset ?cards' = mset (L' @ R') + mset (?x # ?T)" by simp
  also have "\<dots> = mset ?L + mset (?x # ?T)" using same by simp
  also have "\<dots> = mset (?L @ ?x # ?T)" by simp
  also have "\<dots> = mset cards" using id_take_nth_drop [OF i] by simp
  finally have mset': "mset ?cards' = mset cards" .
  have "length (L' @ ?x # R') = Suc i" using len' by simp
  then have "take (Suc i) ((L' @ ?x # R') @ ?T) = L' @ ?x # R'"
    by (metis append_eq_conv_conj)
  then have take': "take (Suc i) ?cards' = L' @ ?x # R'" by simp
  have d: "d = length ?cards' - Suc i" using Suc.hyps(2) length' by simp
  have srt': "sorted (map key (take (Suc i) ?cards'))" using take' res by (simp only:)
  from Suc.hyps(1) [OF d srt'] obtain result where
    rest: "insert_each test [Suc i..<length ?cards'] ?cards' = Some result"
    and m: "mset result = mset ?cards'" and s: "sorted (map key result)"
    by blast
  from rest length' have rest': "insert_each test [Suc i..<length cards] ?cards' = Some result"
    by (simp only:)
  have "[i..<length cards] = i # [Suc i..<length cards]"
    using i by (rule upt_conv_Cons)
  then have "insert_each test [i..<length cards] cards = Some result"
    using run' rest' by simp
  with m mset' s show ?case by simp
qed

lemma insertionSort_contract: "sort_Slice_contract insertionSort"
  unfolding sort_Slice_contract_def insertionSort_def
proof (intro allI impI)
  fix key less_fn cards
  assume "keyed_less key less_fn"
  then have "sound_test key (less_than_previous less_fn)"
    by (rule sound_less_than_previous)
  moreover have "sorted (map key (take 1 cards))" by (cases cards) simp_all
  ultimately show "\<exists>result.
      insert_each (less_than_previous less_fn) [1..<length cards] cards = Some result \<and>
      mset result = mset cards \<and> sorted (map key result)"
    by (rule insert_each_sorts)
qed

section \<open>What the contract determines\<close>

text \<open>
  A sequence has one rearrangement that ascends in a key, provided the key tells its
  cards apart. So the contract fixes the result of sorting such a sequence, whatever the
  routine does with ties.
\<close>

lemma sorted_rearrangement_unique:
  fixes key :: "Card \<Rightarrow> int"
  assumes m: "mset ys = mset xs" and sy: "sorted (map key ys)"
    and sx: "sorted (map key xs)" and inj: "inj_on key (set xs)"
  shows "ys = xs"
proof -
  have sets: "set ys = set xs" using m by (rule mset_eq_setD)
  have "sort_key key xs = ys"
  proof (rule properties_for_sort_key [OF m _ sy])
    fix k
    assume k: "k \<in> set ys"
    have only_k: "filter (\<lambda>x. key k = key x) zs = filter ((=) k) zs" if "set zs = set xs" for zs
    proof (rule filter_cong [OF refl])
      fix x
      assume "x \<in> set zs"
      with that k sets inj show "(key k = key x) = (k = x)"
        by (auto dest: inj_onD)
    qed
    have "filter (\<lambda>x. key k = key x) ys = replicate (count (mset ys) k) k"
      using only_k [OF sets] by (simp add: replicate_count_mset_eq_filter_eq)
    also have "\<dots> = filter (\<lambda>x. key k = key x) xs"
      using only_k [OF refl] m by (simp add: replicate_count_mset_eq_filter_eq)
    finally show "filter (\<lambda>x. key k = key x) ys = filter (\<lambda>x. key k = key x) xs" .
  qed
  moreover have "sort_key key xs = xs" using sx by (rule sort_key_id_if_sorted)
  ultimately show ?thesis by simp
qed

lemma keyed_BySuitThenByRank: "keyed_less absRank BySuitThenByRank"
  by (simp add: keyed_less_def BySuitThenByRank_def)

lemma keyed_ByRankThenBySuit: "keyed_less rankThenSuit ByRankThenBySuit"
  by (simp add: keyed_less_def ByRankThenBySuit_def)

lemma contract_result:
  assumes "sort_Slice_contract sort_Slice" and "keyed_less key less_fn"
  obtains result where "sort_Slice cards less_fn = Some result"
    and "mset result = mset cards" and "sorted (map key result)"
  using assms unfolding sort_Slice_contract_def by blast

lemma contract_sorted_input:
  assumes c: "sort_Slice_contract sort_Slice" and k: "keyed_less key less_fn"
    and s: "sorted (map key cards)" and inj: "inj_on key (set cards)"
  shows "sort_Slice cards less_fn = Some cards"
proof -
  from contract_result [OF c k, of cards] obtain result where
    r: "sort_Slice cards less_fn = Some result" "mset result = mset cards" "sorted (map key result)"
    by blast
  from r(2) r(3) s inj have "result = cards" by (rule sorted_rearrangement_unique)
  with r(1) show ?thesis by simp
qed

lemma contract_rearranged_input:
  assumes c: "sort_Slice_contract sort_Slice" and k: "keyed_less key less_fn"
    and m: "mset cards' = mset cards"
    and s: "sorted (map key cards)" and inj: "inj_on key (set cards)"
  shows "sort_Slice cards' less_fn = Some cards"
proof -
  from contract_result [OF c k, of cards'] obtain result where
    r: "sort_Slice cards' less_fn = Some result" "mset result = mset cards'" "sorted (map key result)"
    by blast
  from r(2) m have "mset result = mset cards" by simp
  from this r(3) s inj have "result = cards" by (rule sorted_rearrangement_unique)
  with r(1) show ?thesis by simp
qed

lemma absRank_canonical_deck: "map absRank canonical_deck = map int [1..<53]"
  by (simp add: canonical_deck_def ranks_def suit_defs rank_defs absRank_unfold upt_rec)

section \<open>Sorting the deck\<close>




lemma sorted_canonical_deck: "sorted_wrt (<) (map absRank canonical_deck)"
  unfolding absRank_canonical_deck by (simp add: sorted_wrt_map upt_rec)

lemma canonical_deck_keys:
  "sorted (map absRank canonical_deck)" "inj_on absRank (set canonical_deck)"
  using sorted_canonical_deck by (simp_all add: strict_sorted_iff distinct_map)

lemma rank_major_deck_keys:
  "sorted (map rankThenSuit rank_major_deck)" "inj_on rankThenSuit (set rank_major_deck)"
proof -
  have "map rankThenSuit rank_major_deck = map int [0..<52]"
    by (simp add: rank_major_deck_def ranks_def suit_defs rank_defs rankThenSuit_unfold upt_rec)
  then have "sorted_wrt (<) (map rankThenSuit rank_major_deck)"
    by (simp add: sorted_wrt_map upt_rec)
  then show "sorted (map rankThenSuit rank_major_deck)" "inj_on rankThenSuit (set rank_major_deck)"
    by (simp_all add: strict_sorted_iff distinct_map)
qed

lemma mset_rank_major_deck: "mset canonical_deck = mset rank_major_deck"
proof -
  have "distinct canonical_deck"
    by (simp add: canonical_deck_def ranks_def suit_defs rank_defs)
  moreover have "distinct rank_major_deck"
    by (simp add: rank_major_deck_def ranks_def suit_defs rank_defs)
  moreover have "set canonical_deck = set rank_major_deck"
    by (auto simp add: canonical_deck_def rank_major_deck_def ranks_def)
  ultimately show ?thesis
    by (simp add: set_eq_iff_mset_eq_distinct)
qed

text \<open>
  Claim C3. \<open>DefaultSort\<close> and \<open>Sort\<close> applied to \<open>BySuitThenByRank\<close> are the same
  transformation: on every input they hand the same slice and the same closure to the
  sorting routine, whatever that routine is, and so return the same sequence.
\<close>

theorem DefaultSort_eq_Sort_BySuitThenByRank:
  "DefaultSort sort_Slice cards = Sort sort_Slice BySuitThenByRank cards \<and>
   DefaultSort sort_Slice = Sort sort_Slice BySuitThenByRank"
proof
  show pointwise: "DefaultSort sort_Slice cards = Sort sort_Slice BySuitThenByRank cards" for cards
    by (simp add: DefaultSort_def Sort_def)
  show "DefaultSort sort_Slice = Sort sort_Slice BySuitThenByRank"
    by (rule ext) (rule pointwise)
qed




text \<open>
  Claim C5. For two non-joker cards the key \<open>rankThenSuit\<close>, rank ordinal minus one
  times the number of suits plus suit ordinal, orders by rank first and by suit within a
  rank. With a sorting routine that meets the contract, \<open>Sort ByRankThenBySuit\<close> turns
  the base deck of \<open>New\<close> into the rank-major sequence: the four Aces, then the four
  Twos, and so on up to the four Kings.
\<close>

theorem rankThenSuit_rank_then_suit:
  assumes "non_joker_card c1" and "non_joker_card c2" and c: "sort_Slice_contract sort_Slice"
  shows "(rankThenSuit c1 < rankThenSuit c2) =
      (Rank c1 < Rank c2 \<or> (Rank c1 = Rank c2 \<and> Suit c1 < Suit c2)) \<and>
    Sort sort_Slice ByRankThenBySuit canonical_deck = Some rank_major_deck \<and>
    New [Sort sort_Slice ByRankThenBySuit] = Some rank_major_deck \<and>
    map Rank rank_major_deck = concat (map (replicate 4) ranks)"
proof -
  from non_joker_bounds [OF assms(1)] non_joker_bounds [OF assms(2)]
  have b: "0 \<le> uint (Suit c1)" "uint (Suit c1) \<le> 3" "0 \<le> uint (Suit c2)" "uint (Suit c2) \<le> 3"
    by simp_all
  have lt: "(rankThenSuit c1 < rankThenSuit c2) =
      (Rank c1 < Rank c2 \<or> (Rank c1 = Rank c2 \<and> Suit c1 < Suit c2))"
    unfolding rankThenSuit_unfold word_less_def word_uint_eq_iff using b by (intro rank_major_arith)
  have srt: "Sort sort_Slice ByRankThenBySuit canonical_deck = Some rank_major_deck"
    unfolding Sort_def
    by (rule contract_rearranged_input
        [OF c keyed_ByRankThenBySuit mset_rank_major_deck rank_major_deck_keys])
  have grouped: "map Rank rank_major_deck = concat (map (replicate 4) ranks)"
    by (simp add: rank_major_deck_def ranks_def numeral_eq_Suc)
  from lt srt grouped show ?thesis
    by (simp add: New_single)
qed

theorem rankThenSuit_rank_then_suit_witness:
  "non_joker_card \<lparr>Suit = Heart, Rank = Ace\<rparr> \<and> non_joker_card \<lparr>Suit = Spade, Rank = Two\<rparr> \<and>
   sort_Slice_contract insertionSort \<and>
   rankThenSuit \<lparr>Suit = Heart, Rank = Ace\<rparr> < rankThenSuit \<lparr>Suit = Spade, Rank = Two\<rparr> \<and>
   Sort insertionSort ByRankThenBySuit canonical_deck = Some rank_major_deck"
proof -
  have nj: "non_joker_card \<lparr>Suit = Heart, Rank = Ace\<rparr>" "non_joker_card \<lparr>Suit = Spade, Rank = Two\<rparr>"
    by (simp_all add: non_joker_card_def suit_defs rank_defs)
  from rankThenSuit_rank_then_suit [OF nj insertionSort_contract] nj insertionSort_contract show ?thesis
    by (simp add: suit_defs rank_defs)
qed

section \<open>Shuffling the deck\<close>

lemma swap_cards_perm:
  assumes "i < length cards" and "j < length cards"
  obtains cards' where "swap_cards cards i j = Some cards'"
    and "length cards' = length cards" and "mset cards' = mset cards"
  using assms mset_swap [of j cards i] by (simp add: swap_cards_def)

lemma run_swaps_perm:
  "\<forall>(i, j)\<in>set outcome. i < length cards \<and> j < length cards \<Longrightarrow>
   \<exists>shuffled. run_swaps outcome cards = Some shuffled \<and>
     length shuffled = length cards \<and> mset shuffled = mset cards"
proof (induction outcome arbitrary: cards)
  case Nil
  then show ?case by simp
next
  case (Cons p outcome)
  obtain i j where p: "p = (i, j)" by (cases p)
  with Cons.prems have ij: "i < length cards" "j < length cards" by simp_all
  from swap_cards_perm [OF ij] obtain cards' where
    s: "swap_cards cards i j = Some cards'" "length cards' = length cards" "mset cards' = mset cards"
    by blast
  from Cons.prems s(2) have "\<forall>(i, j)\<in>set outcome. i < length cards' \<and> j < length cards'"
    by simp
  from Cons.IH [OF this] obtain shuffled where
    "run_swaps outcome cards' = Some shuffled" "length shuffled = length cards'"
    "mset shuffled = mset cards'"
    by blast
  with s p show ?case by simp
qed

text \<open>
  Claim C9. Whatever the randomness source makes \<^verbatim>\<open>r.Shuffle\<close> do, that is for every
  sequence of swaps of two positions of the slice, \<open>Shuffle\<close> returns a rearrangement of
  its input: the same length and the same cards with the same multiplicities. Applied to
  the base deck of \<open>New\<close> it returns 52 cards, and sorting them (with a routine that meets
  the contract) gives what sorting the base deck gives.
\<close>

theorem Shuffle_permutes:
  assumes "\<forall>(i, j)\<in>set outcome. i < length cards \<and> j < length cards"
  shows "\<exists>shuffled. Shuffle outcome cards = Some shuffled \<and>
      length shuffled = length cards \<and> mset shuffled = mset cards \<and>
      (cards = canonical_deck \<longrightarrow>
         New [Shuffle outcome] = Some shuffled \<and> length shuffled = 52 \<and>
         (sort_Slice_contract sort_Slice \<longrightarrow>
            DefaultSort sort_Slice shuffled = DefaultSort sort_Slice cards))"
proof -
  from run_swaps_perm [OF assms] obtain shuffled where
    s: "Shuffle outcome cards = Some shuffled" "length shuffled = length cards"
      "mset shuffled = mset cards"
    by (auto simp add: Shuffle_def)
  have "DefaultSort sort_Slice shuffled = DefaultSort sort_Slice cards"
    if "cards = canonical_deck" and c: "sort_Slice_contract sort_Slice"
  proof -
    from s(3) that(1) have m: "mset shuffled = mset canonical_deck" by simp
    have "DefaultSort sort_Slice shuffled = Some canonical_deck"
      unfolding DefaultSort_def
      by (rule contract_rearranged_input [OF c keyed_BySuitThenByRank m canonical_deck_keys])
    moreover have "DefaultSort sort_Slice canonical_deck = Some canonical_deck"
      unfolding DefaultSort_def
      by (rule contract_sorted_input [OF c keyed_BySuitThenByRank canonical_deck_keys])
    ultimately show ?thesis using that(1) by simp
  qed
  with s show ?thesis
    by (auto simp add: New_single length_canonical_deck)
qed

theorem Shuffle_permutes_witness:
  "\<exists>shuffled. Shuffle [(51, 7), (50, 50), (49, 0)] canonical_deck = Some shuffled \<and>
     New [Shuffle [(51, 7), (50, 50), (49, 0)]] = Some shuffled \<and>
     length shuffled = 52 \<and> mset shuffled = mset canonical_deck \<and>
     DefaultSort insertionSort shuffled = DefaultSort insertionSort canonical_deck"
proof -
  have "\<forall>(i, j)\<in>set [(51, 7), (50, 50), (49, 0)].
      i < length canonical_deck \<and> j < length canonical_deck"
    by (simp add: length_canonical_deck)
  from Shuffle_permutes [OF this, of insertionSort] insertionSort_contract show ?thesis
    by blast
qed

end
